theory Spec2Isabelle
  imports Complex_Main
begin

section \<open>Data model (types of the batch engine)\<close>

text \<open>
  The types follow the interfaces \<^verbatim>\<open>KeywordMetadata\<close>, \<^verbatim>\<open>BatchItem\<close>,
  \<^verbatim>\<open>AnalysisResult\<close> and \<^verbatim>\<open>GeminiResponse\<close>. The field \<^verbatim>\<open>id\<close> is
  \<open>item_id\<close> and \<^verbatim>\<open>image\<close> is \<open>image_str\<close> (both names are taken in HOL), the
  field \<^verbatim>\<open>keywords\<close> of a result is \<open>keywords_r\<close>, and the fields of
  \<^verbatim>\<open>GeminiResponse\<close> carry the prefix \<open>g_\<close>. An optional field is an \<open>option\<close>.
\<close>

datatype platform = AdobeStock | Shutterstock | Freepik

record KeywordMetadata =
  word :: string
  relevance :: int
  platforms :: "platform list"

datatype item_status = Pending | Processing | Completed | Error

record AnalysisResult =
  taglines :: "string list"
  keywords_r :: "KeywordMetadata list"
  description :: string
  suggestedPlatforms :: "string list"

record GeminiResponse =
  g_taglines :: "string list"
  g_keywords :: "KeywordMetadata list"
  g_description :: string
  g_platforms :: "string list"

record BatchItem =
  item_id :: string
  image_str :: string
  previewUrl :: string
  status :: item_status
  result :: "AnalysisResult option"
  error :: "string option"

definition CONCURRENCY_LIMIT :: nat where
  "CONCURRENCY_LIMIT = 5"

definition MAX_IMAGE_DIMENSION :: real where
  "MAX_IMAGE_DIMENSION = 1024"

section \<open>Image normalizer: \<^verbatim>\<open>resizeImage\<close>\<close>

text \<open>
  The size computation of \<^verbatim>\<open>resizeImage\<close>: \<^verbatim>\<open>width\<close> and \<^verbatim>\<open>height\<close> start as
  the decoded image's size and are rescaled in place. JavaScript numbers are taken as
  exact reals here; the pair returned is what the code assigns to the canvas and passes
  to \<^verbatim>\<open>drawImage\<close>.
\<close>

fun resizeDims :: "real \<times> real \<Rightarrow> real \<times> real" where
  "resizeDims (width, height) =
     (if width > height then
        (if width > MAX_IMAGE_DIMENSION
         then (MAX_IMAGE_DIMENSION, height * (MAX_IMAGE_DIMENSION / width))
         else (width, height))
      else
        (if height > MAX_IMAGE_DIMENSION
         then (width * (MAX_IMAGE_DIMENSION / height), MAX_IMAGE_DIMENSION)
         else (width, height)))"

text \<open>
  A submitted \<^verbatim>\<open>File\<close>: its declared content type, the size of the picture the
  browser decodes from it (\<open>None\<close> when the bytes are no picture: then neither
  \<^verbatim>\<open>onload\<close> fires and the promise of \<^verbatim>\<open>resizeImage\<close> never settles, as the code
  installs no error handler), the JPEG data URL the canvas yields for it at a given
  size, and the object URL the browser hands out for it.
\<close>

record File =
  ftype :: string
  picture :: "(nat \<times> nat) option"
  jpeg :: "real \<times> real \<Rightarrow> string"
  objectUrl :: string

definition resizeImage :: "File \<Rightarrow> (string \<times> string) option" where
  "resizeImage f =
     (case picture f of
        None \<Rightarrow> None
      | Some (w, h) \<Rightarrow> Some (jpeg f (resizeDims (real w, real h)), objectUrl f))"

section \<open>The application state\<close>

text \<open>
  The React state of \<^verbatim>\<open>App\<close> (\<open>batch\<close>, \<open>isProcessingAll\<close>, \<open>isPreparing\<close>,
  \<open>selectedKeywordsMap\<close>), the ref \<open>base64Store\<close>, and what the JavaScript runtime
  holds of the asynchronous calls that have not finished: the \<open>queue\<close> array and the
  \<open>workers\<close> of the \<^verbatim>\<open>processAll\<close> run, and \<open>singles\<close>, the ids of the calls of
  \<^verbatim>\<open>analyzeSingle\<close> made outside a run that wait for the provider. \<open>analyzed\<close> is an
  observation log, not program state: the ids on which the workers of the last run
  have called \<^verbatim>\<open>analyzeSingle\<close>, in call order.

  A state update \<^verbatim>\<open>setBatch(f)\<close> is the application of \<open>f\<close> to the current store, in
  the order of the calls, and every handler reads the committed state.
\<close>

datatype worker = Awaiting string | Finished

record state =
  batch :: "BatchItem list"
  isProcessingAll :: bool
  isPreparing :: bool
  selectedKeywordsMap :: "string \<rightharpoonup> string list"
  base64Store :: "string \<rightharpoonup> string"
  queue :: "BatchItem list"
  workers :: "worker list"
  singles :: "string list"
  analyzed :: "string list"

definition init_state :: state where
  "init_state = \<lparr> batch = [], isProcessingAll = False, isPreparing = False,
     selectedKeywordsMap = Map.empty, base64Store = Map.empty,
     queue = [], workers = [], singles = [], analyzed = [] \<rparr>"

section \<open>Intake: \<^verbatim>\<open>addFilesToBatch\<close> and \<^verbatim>\<open>capturePhoto\<close>\<close>

definition startsWith :: "string \<Rightarrow> string \<Rightarrow> bool" where
  "startsWith s p = (take (length p) s = p)"

definition isImage :: "File \<Rightarrow> bool" where
  "isImage f = startsWith (ftype f) ''image/''"

definition newItem :: "string \<Rightarrow> string \<Rightarrow> BatchItem" where
  "newItem i preview = \<lparr> item_id = i, image_str = [], previewUrl = preview,
     status = Pending, result = None, error = None \<rparr>"

text \<open>
  How a call of \<^verbatim>\<open>addFilesToBatch\<close> ends: its promise is fulfilled, is rejected with an
  error, or never settles.
\<close>

datatype intake_error = InvalidInputError | DecodeError

datatype intake = Fulfilled_intake | Rejected_intake intake_error | Unsettled_intake

text \<open>
  The callbacks of the \<^verbatim>\<open>map\<close> over the filtered files: each file that decodes draws
  its id (\<open>gen k\<close> is the id \<^verbatim>\<open>Math.random\<close> yields for the \<open>k\<close>-th filtered file),
  stores its payload and returns its item; a file that does not decode leaves its
  promise pending (\<open>None\<close>).
\<close>

fun normalizeAll :: "(nat \<Rightarrow> string) \<Rightarrow> nat \<Rightarrow> File list \<Rightarrow> (string \<rightharpoonup> string)
    \<Rightarrow> BatchItem option list \<times> (string \<rightharpoonup> string)" where
  "normalizeAll gen k [] store = ([], store)"
| "normalizeAll gen k (f # fs) store =
     (case resizeImage f of
        None \<Rightarrow> (let (rs, store') = normalizeAll gen (Suc k) fs store in (None # rs, store'))
      | Some (base64, preview) \<Rightarrow>
          (let (rs, store') = normalizeAll gen (Suc k) fs (store(gen k \<mapsto> base64))
           in (Some (newItem (gen k) preview) # rs, store')))"

definition addFilesToBatch :: "File list \<Rightarrow> (nat \<Rightarrow> string) \<Rightarrow> state \<Rightarrow> intake \<times> state" where
  "addFilesToBatch files gen s =
     (if files = [] then (Fulfilled_intake, s)
      else
        let s1 = s\<lparr>isPreparing := True\<rparr>;
            (rs, store') = normalizeAll gen 0 (filter isImage files) (base64Store s1);
            s2 = s1\<lparr>base64Store := store'\<rparr>
        in if list_all (\<lambda>r. r \<noteq> None) rs
           then (Fulfilled_intake,
                 s2\<lparr>batch := map the rs @ batch s2, isPreparing := False\<rparr>)
           else (Unsettled_intake, s2))"

definition capturePhoto :: "string \<Rightarrow> string \<Rightarrow> state \<Rightarrow> state" where
  "capturePhoto i dataUrl s =
     s\<lparr>base64Store := (base64Store s)(i \<mapsto> dataUrl),
       batch := newItem i dataUrl # batch s\<rparr>"

section \<open>Store writes and the user's operations\<close>

text \<open>
  The three updaters that \<^verbatim>\<open>analyzeSingle\<close> passes to \<^verbatim>\<open>setBatch\<close>: each maps over the
  store and rewrites the items that carry the id.
\<close>

definition markProcessing :: "string \<Rightarrow> BatchItem list \<Rightarrow> BatchItem list" where
  "markProcessing i prev =
     map (\<lambda>it. if item_id it = i then it\<lparr>status := Processing, error := None\<rparr> else it) prev"

definition markError :: "string \<Rightarrow> string \<Rightarrow> BatchItem list \<Rightarrow> BatchItem list" where
  "markError i msg prev =
     map (\<lambda>it. if item_id it = i then it\<lparr>status := Error, error := Some msg\<rparr> else it) prev"

definition markCompleted :: "string \<Rightarrow> AnalysisResult \<Rightarrow> BatchItem list \<Rightarrow> BatchItem list" where
  "markCompleted i r prev =
     map (\<lambda>it. if item_id it = i then it\<lparr>status := Completed, result := Some r\<rparr> else it) prev"

definition removeItem :: "string \<Rightarrow> state \<Rightarrow> state" where
  "removeItem i s =
     s\<lparr>batch := filter (\<lambda>it. item_id it \<noteq> i) (batch s),
       base64Store := (base64Store s)(i := None),
       selectedKeywordsMap := (selectedKeywordsMap s)(i := None)\<rparr>"

definition clearBatch :: "state \<Rightarrow> state" where
  "clearBatch s =
     s\<lparr>batch := [], selectedKeywordsMap := Map.empty, base64Store := Map.empty\<rparr>"

definition handleToggleKeyword :: "string \<Rightarrow> string \<Rightarrow> state \<Rightarrow> state" where
  "handleToggleKeyword itemId keyword s =
     (let prev = selectedKeywordsMap s;
          current = (case prev itemId of None \<Rightarrow> [] | Some c \<Rightarrow> c)
      in s\<lparr>selectedKeywordsMap :=
             prev(itemId \<mapsto> (if keyword \<in> set current
                               then filter (\<lambda>k. k \<noteq> keyword) current
                               else current @ [keyword]))\<rparr>)"

definition handleSelectAllInItem :: "string \<Rightarrow> KeywordMetadata list \<Rightarrow> state \<Rightarrow> state" where
  "handleSelectAllInItem itemId kws s =
     s\<lparr>selectedKeywordsMap := (selectedKeywordsMap s)(itemId \<mapsto> map word kws)\<rparr>"

section \<open>Single-item analysis: \<^verbatim>\<open>analyzeSingle\<close>\<close>

text \<open>
  How the awaited call of \<^verbatim>\<open>analyzeImage\<close> ends: with a response, or with a thrown
  \<^verbatim>\<open>Error\<close> whose message is given (the adapter throws \<^verbatim>\<open>Error\<close> objects).
\<close>

datatype outcome = Fulfilled GeminiResponse | Rejected string

definition toResult :: "GeminiResponse \<Rightarrow> AnalysisResult" where
  "toResult aiResponse = \<lparr> taglines = g_taglines aiResponse,
     keywords_r = g_keywords aiResponse, description = g_description aiResponse,
     suggestedPlatforms = g_platforms aiResponse \<rparr>"

text \<open>
  \<^verbatim>\<open>analyzeSingle\<close> up to its \<^verbatim>\<open>await\<close>: the first write, the payload lookup (an
  absent payload and the empty string both fail the test \<^verbatim>\<open>!imageData\<close>) and, when
  the payload is lost, the second write and the return. The flag tells whether the
  provider has been called, so that the call now waits for it.
\<close>

definition analyzeSingle_begin :: "string \<Rightarrow> state \<Rightarrow> bool \<times> state" where
  "analyzeSingle_begin i s =
     (let s1 = s\<lparr>batch := markProcessing i (batch s)\<rparr>;
          lost = (False, s1\<lparr>batch := markError i ''Image data lost'' (batch s1)\<rparr>)
      in case base64Store s1 i of
           None \<Rightarrow> lost
         | Some imageData \<Rightarrow> if imageData = [] then lost else (True, s1))"

text \<open>
  \<^verbatim>\<open>analyzeSingle\<close> after its \<^verbatim>\<open>await\<close>: the body of \<^verbatim>\<open>try\<close> on a response, the
  \<^verbatim>\<open>catch\<close> clause on a thrown error. Both end the call normally.
\<close>

definition analyzeSingle_settle :: "string \<Rightarrow> outcome \<Rightarrow> state \<Rightarrow> state" where
  "analyzeSingle_settle i out s =
     (case out of
        Fulfilled aiResponse \<Rightarrow> s\<lparr>batch := markCompleted i (toResult aiResponse) (batch s)\<rparr>
      | Rejected msg \<Rightarrow> s\<lparr>batch := markError i msg (batch s)\<rparr>)"

section \<open>The scheduler: \<^verbatim>\<open>processAll\<close>\<close>

text \<open>
  The loop of one worker, from the test of \<^verbatim>\<open>queue.length\<close> to the point where the
  worker waits for the provider or leaves the loop: it shifts the head of the queue and
  calls \<^verbatim>\<open>analyzeSingle\<close> on its id. When that call returns without calling the
  provider (payload lost), the worker goes round the loop again in the same turn of
  the event loop.
\<close>

fun worker_loop :: "BatchItem list \<Rightarrow> state \<Rightarrow> worker \<times> state" where
  "worker_loop [] s = (Finished, s\<lparr>queue := []\<rparr>)"
| "worker_loop (item # rest) s =
     (case analyzeSingle_begin (item_id item)
             (s\<lparr>queue := rest, analyzed := analyzed s @ [item_id item]\<rparr>) of
        (True, s') \<Rightarrow> (Awaiting (item_id item), s')
      | (False, s') \<Rightarrow> worker_loop rest s')"

definition worker_run :: "state \<Rightarrow> worker \<times> state" where
  "worker_run s = worker_loop (queue s) s"

fun start_workers :: "nat \<Rightarrow> state \<Rightarrow> state" where
  "start_workers 0 s = s"
| "start_workers (Suc n) s =
     (let (w, s') = worker_run s in start_workers n (s'\<lparr>workers := workers s' @ [w]\<rparr>))"

text \<open>
  \<^verbatim>\<open>await Promise.all(workers)\<close> and the statement after it: once every worker has left
  its loop the flag is cleared.
\<close>

definition finish_run :: "state \<Rightarrow> state" where
  "finish_run s =
     (if list_all (\<lambda>w. w = Finished) (workers s) then s\<lparr>isProcessingAll := False\<rparr> else s)"

definition eligible :: "BatchItem list \<Rightarrow> BatchItem list" where
  "eligible b = filter (\<lambda>it. status it = Pending \<or> status it = Error) b"

definition processAll :: "state \<Rightarrow> state" where
  "processAll s =
     (let pendingItems = eligible (batch s)
      in if pendingItems = [] \<or> isProcessingAll s then s
         else
           let s1 = s\<lparr>isProcessingAll := True, queue := pendingItems,
                      workers := [], analyzed := []\<rparr>
           in finish_run
                (start_workers (min CONCURRENCY_LIMIT (length pendingItems)) s1))"

section \<open>Events and executions\<close>

text \<open>
  One event is one turn of the JavaScript event loop, which runs to completion: a
  call of an operation by the user, or the settling of a provider call that is in
  flight, followed by the code that waits for it. \<open>SingleSettles k out\<close> settles the
  \<open>k\<close>-th call of \<open>singles\<close>, \<open>WorkerSettles k out\<close> the call worker \<open>k\<close> waits for;
  where there is no such call the event does not occur and the state stays. An
  intake of files is one event: the turns of its decode callbacks are not interleaved
  with other events.
\<close>

datatype event =
    AddFiles "File list" "nat \<Rightarrow> string"
  | Capture string string
  | Remove string
  | Clear
  | Toggle string string
  | SelectAll string "KeywordMetadata list"
  | Analyze string
  | ProcessAll
  | SingleSettles nat outcome
  | WorkerSettles nat outcome

definition analyzeSingle_call :: "string \<Rightarrow> state \<Rightarrow> state" where
  "analyzeSingle_call i s =
     (case analyzeSingle_begin i s of
        (True, s') \<Rightarrow> s'\<lparr>singles := singles s' @ [i]\<rparr>
      | (False, s') \<Rightarrow> s')"

definition single_settles :: "nat \<Rightarrow> outcome \<Rightarrow> state \<Rightarrow> state" where
  "single_settles k out s =
     (if k < length (singles s)
      then analyzeSingle_settle (singles s ! k) out
             (s\<lparr>singles := take k (singles s) @ drop (Suc k) (singles s)\<rparr>)
      else s)"

definition worker_settles :: "nat \<Rightarrow> outcome \<Rightarrow> state \<Rightarrow> state" where
  "worker_settles k out s =
     (if k < length (workers s)
      then (case workers s ! k of
              Finished \<Rightarrow> s
            | Awaiting i \<Rightarrow>
                (let (w, s') = worker_run (analyzeSingle_settle i out s)
                 in finish_run (s'\<lparr>workers := (workers s')[k := w]\<rparr>)))
      else s)"

fun step :: "event \<Rightarrow> state \<Rightarrow> state" where
  "step (AddFiles files gen) s = snd (addFilesToBatch files gen s)"
| "step (Capture i dataUrl) s = capturePhoto i dataUrl s"
| "step (Remove i) s = removeItem i s"
| "step Clear s = clearBatch s"
| "step (Toggle i kw) s = handleToggleKeyword i kw s"
| "step (SelectAll i kws) s = handleSelectAllInItem i kws s"
| "step (Analyze i) s = analyzeSingle_call i s"
| "step ProcessAll s = processAll s"
| "step (SingleSettles k out) s = single_settles k out s"
| "step (WorkerSettles k out) s = worker_settles k out s"

fun exec :: "event list \<Rightarrow> state \<Rightarrow> state" where
  "exec [] s = s"
| "exec (e # es) s = exec es (step e s)"

section \<open>Predicates and sample inputs of the verification\<close>

text \<open>A property of the store that the three updaters of \<^verbatim>\<open>analyzeSingle\<close> keep.\<close>

definition marks_closed :: "(BatchItem list \<Rightarrow> bool) \<Rightarrow> bool" where
  "marks_closed P =
     ((\<forall>i b. P b \<longrightarrow> P (markProcessing i b)) \<and>
      (\<forall>i m b. P b \<longrightarrow> P (markError i m b)) \<and>
      (\<forall>i r b. P b \<longrightarrow> P (markCompleted i r b)))"

text \<open>
  Sample inputs: a provider response, a photo of a given size that decodes, a text
  file, and a supply of ids.
\<close>

definition sample_response :: GeminiResponse where
  "sample_response = \<lparr> g_taglines = [''Quiet light''],
     g_keywords = [\<lparr> word = ''sky'', relevance = 90, platforms = [AdobeStock] \<rparr>],
     g_description = ''calm'', g_platforms = [''Instagram''] \<rparr>"

definition photo :: "nat \<Rightarrow> nat \<Rightarrow> string \<Rightarrow> File" where
  "photo w h url = \<lparr> ftype = ''image/png'', picture = Some (w, h),
     jpeg = (\<lambda>_. ''data:image/jpeg;base64,AAAA''), objectUrl = url \<rparr>"

definition notes_txt :: File where
  "notes_txt = \<lparr> ftype = ''text/plain'', picture = None,
     jpeg = (\<lambda>_. ''data:,''), objectUrl = ''blob:notes'' \<rparr>"

fun sample_ids :: "nat \<Rightarrow> string" where
  "sample_ids 0 = ''id0''"
| "sample_ids (Suc 0) = ''id1''"
| "sample_ids (Suc (Suc n)) = CHR ''x'' # sample_ids n"


text \<open>
  Executions in which \<^verbatim>\<open>handleToggleKeyword\<close> and \<^verbatim>\<open>handleSelectAllInItem\<close> are
  called on ids of items the store holds (the cards and the modal call them for
  items they render), and the invariant of the selection map under them.
\<close>

fun targets_exist :: "event list \<Rightarrow> state \<Rightarrow> bool" where
  "targets_exist [] s = True"
| "targets_exist (e # es) s =
     ((case e of
         Toggle i kw \<Rightarrow> i \<in> item_id ` set (batch s)
       | SelectAll i kws \<Rightarrow> i \<in> item_id ` set (batch s)
       | _ \<Rightarrow> True) \<and> targets_exist es (step e s))"

definition sel_inv :: "state \<Rightarrow> bool" where
  "sel_inv s = (dom (selectedKeywordsMap s) \<subseteq> item_id ` set (batch s))"

text \<open>
  The provider calls of the run that are in flight: one for each worker that waits.
\<close>

definition calls_in_flight :: "state \<Rightarrow> nat" where
  "calls_in_flight s = length (filter (\<lambda>w. w \<noteq> Finished) (workers s))"

text \<open>Seven photos taken with the camera, each with a payload.\<close>

definition seven :: "event list" where
  "seven = [Capture ''a'' ''data:a'', Capture ''b'' ''data:b'', Capture ''c'' ''data:c'',
     Capture ''d'' ''data:d'', Capture ''e'' ''data:e'', Capture ''f'' ''data:f'',
     Capture ''g'' ''data:g'']"





text \<open>
  Executions in which no intake draws the id \<open>i\<close> again: \<^verbatim>\<open>addFilesToBatch\<close> gives
  its \<open>k\<close>-th filtered file the id \<open>gen k\<close>, \<^verbatim>\<open>capturePhoto\<close> the id it drew.
\<close>

fun no_intake_of :: "string \<Rightarrow> event list \<Rightarrow> bool" where
  "no_intake_of i [] = True"
| "no_intake_of i (e # es) =
     ((case e of
         AddFiles files gen \<Rightarrow> i \<notin> set (map gen [0..<length (filter isImage files)])
       | Capture j dataUrl \<Rightarrow> j \<noteq> i
       | _ \<Rightarrow> True) \<and> no_intake_of i es)"

text \<open>Two photos, and an analysis of the first that waits for the provider.\<close>

definition in_flight_a :: "event list" where
  "in_flight_a = [Capture ''a'' ''data:a'', Capture ''b'' ''data:b'', Analyze ''a'']"






text \<open>
  The ids with an analysis in flight: those of the single calls and, for each worker
  that waits, the id it waits for. A payload is lost when the lookup of
  \<^verbatim>\<open>analyzeSingle\<close> fails. \<open>status_of i b\<close> is the status of the item with id \<open>i\<close>.
\<close>

fun worker_ids :: "worker \<Rightarrow> string list" where
  "worker_ids (Awaiting i) = [i]"
| "worker_ids Finished = []"

definition inflight :: "state \<Rightarrow> string list" where
  "inflight s = singles s @ concat (map worker_ids (workers s))"

definition lost_payload :: "state \<Rightarrow> string \<Rightarrow> bool" where
  "lost_payload s i = (base64Store s i = None \<or> base64Store s i = Some [])"









definition settled :: "string \<Rightarrow> BatchItem \<Rightarrow> BatchItem \<Rightarrow> bool" where
  "settled i it it' =
     (item_id it' = item_id it \<and>
      (if item_id it = i
       then status it = Processing \<and> (status it' = Completed \<or> status it' = Error)
       else status it' = status it))"


section \<open>Verification\<close>

subsection \<open>The resize policy\<close>







subsection \<open>Writes that target an id the store does not hold\<close>

lemma markProcessing_absent: "i \<notin> item_id ` set b \<Longrightarrow> markProcessing i b = b"
  by (induction b) (auto simp: markProcessing_def)

lemma markError_absent: "i \<notin> item_id ` set b \<Longrightarrow> markError i m b = b"
  by (induction b) (auto simp: markError_def)

lemma markCompleted_absent: "i \<notin> item_id ` set b \<Longrightarrow> markCompleted i r b = b"
  by (induction b) (auto simp: markCompleted_def)

text \<open>
  C10. For an id that neither the item store nor the payload store holds,
  \<^verbatim>\<open>analyzeSingle\<close> returns in its first turn without calling the provider (the flag is
  \<open>False\<close> and no call is added to those in flight), and the whole state, so the item
  store, the payload store and the selection map, is as before.
\<close>

theorem analyzeSingle_unknown_id:
  assumes "i \<notin> item_id ` set (batch s)" "base64Store s i = None"
  shows "analyzeSingle_begin i s = (False, s) \<and> analyzeSingle_call i s = s"
  using assms
  by (simp add: analyzeSingle_begin_def analyzeSingle_call_def
      markProcessing_absent markError_absent)

theorem analyzeSingle_unknown_id_witness:
  "''zz'' \<notin> item_id ` set (batch (capturePhoto ''a'' ''data:x'' init_state)) \<and>
   base64Store (capturePhoto ''a'' ''data:x'' init_state) ''zz'' = None \<and>
   analyzeSingle_begin ''zz'' (capturePhoto ''a'' ''data:x'' init_state)
     = (False, capturePhoto ''a'' ''data:x'' init_state) \<and>
   analyzeSingle_call ''zz'' (capturePhoto ''a'' ''data:x'' init_state)
     = capturePhoto ''a'' ''data:x'' init_state"
proof -
  have a: "''zz'' \<notin> item_id ` set (batch (capturePhoto ''a'' ''data:x'' init_state))"
    by (simp add: capturePhoto_def init_state_def newItem_def)
  have b: "base64Store (capturePhoto ''a'' ''data:x'' init_state) ''zz'' = None"
    by (simp add: capturePhoto_def init_state_def)
  show ?thesis using a b analyzeSingle_unknown_id[OF a b] by simp
qed

subsection \<open>Frame and closure lemmas for the analysis code\<close>

lemma begin_frame:
  "selectedKeywordsMap (snd (analyzeSingle_begin i s)) = selectedKeywordsMap s"
  "base64Store (snd (analyzeSingle_begin i s)) = base64Store s"
  "queue (snd (analyzeSingle_begin i s)) = queue s"
  "workers (snd (analyzeSingle_begin i s)) = workers s"
  "singles (snd (analyzeSingle_begin i s)) = singles s"
  "analyzed (snd (analyzeSingle_begin i s)) = analyzed s"
  "isProcessingAll (snd (analyzeSingle_begin i s)) = isProcessingAll s"
  by (simp_all add: analyzeSingle_begin_def Let_def split: option.splits)

lemma settle_frame:
  "selectedKeywordsMap (analyzeSingle_settle i out s) = selectedKeywordsMap s"
  "base64Store (analyzeSingle_settle i out s) = base64Store s"
  "queue (analyzeSingle_settle i out s) = queue s"
  "workers (analyzeSingle_settle i out s) = workers s"
  "singles (analyzeSingle_settle i out s) = singles s"
  "analyzed (analyzeSingle_settle i out s) = analyzed s"
  "isProcessingAll (analyzeSingle_settle i out s) = isProcessingAll s"
  by (simp_all add: analyzeSingle_settle_def split: outcome.splits)

lemma worker_loop_frame:
  "selectedKeywordsMap (snd (worker_loop q s)) = selectedKeywordsMap s \<and>
   base64Store (snd (worker_loop q s)) = base64Store s \<and>
   workers (snd (worker_loop q s)) = workers s \<and>
   singles (snd (worker_loop q s)) = singles s \<and>
   isProcessingAll (snd (worker_loop q s)) = isProcessingAll s"
proof (induction q arbitrary: s)
  case Nil
  then show ?case by simp
next
  case (Cons item rest)
  let ?s0 = "s\<lparr>queue := rest, analyzed := analyzed s @ [item_id item]\<rparr>"
  obtain fl s' where b: "analyzeSingle_begin (item_id item) ?s0 = (fl, s')"
    by (cases "analyzeSingle_begin (item_id item) ?s0")
  have fr: "selectedKeywordsMap s' = selectedKeywordsMap s" "base64Store s' = base64Store s"
    "workers s' = workers s" "singles s' = singles s" "isProcessingAll s' = isProcessingAll s"
    using begin_frame[of "item_id item" ?s0] b by simp_all
  show ?case
  proof (cases fl)
    case True
    then show ?thesis using b fr by simp
  next
    case False
    then show ?thesis using b fr Cons.IH[of s'] by simp
  qed
qed

lemma begin_closed:
  assumes "marks_closed P" "P (batch s)"
  shows "P (batch (snd (analyzeSingle_begin i s)))"
  using assms by (auto simp: analyzeSingle_begin_def Let_def marks_closed_def split: option.splits)

lemma settle_closed:
  assumes "marks_closed P" "P (batch s)"
  shows "P (batch (analyzeSingle_settle i out s))"
  using assms by (auto simp: analyzeSingle_settle_def marks_closed_def split: outcome.splits)

lemma worker_loop_closed:
  assumes "marks_closed P" "P (batch s)"
  shows "P (batch (snd (worker_loop q s)))"
  using assms(2)
proof (induction q arbitrary: s)
  case Nil
  then show ?case by simp
next
  case (Cons item rest)
  let ?s0 = "s\<lparr>queue := rest, analyzed := analyzed s @ [item_id item]\<rparr>"
  obtain fl s' where b: "analyzeSingle_begin (item_id item) ?s0 = (fl, s')"
    by (cases "analyzeSingle_begin (item_id item) ?s0")
  have "P (batch ?s0)" using Cons.prems by simp
  then have p: "P (batch s')" using begin_closed[OF assms(1), of ?s0 "item_id item"] b by simp
  show ?case
  proof (cases fl)
    case True
    then show ?thesis using b p by simp
  next
    case False
    then show ?thesis using b Cons.IH[OF p] by simp
  qed
qed

lemma start_workers_closed:
  assumes "marks_closed P" "P (batch s)"
  shows "P (batch (start_workers n s))"
  using assms(2)
proof (induction n arbitrary: s)
  case 0
  then show ?case by simp
next
  case (Suc n)
  obtain w s' where r: "worker_run s = (w, s')" by (cases "worker_run s")
  then have "P (batch s')" using worker_loop_closed[OF assms(1) Suc.prems, of "queue s"]
    by (simp add: worker_run_def)
  then have "P (batch (s'\<lparr>workers := workers s' @ [w]\<rparr>))" by simp
  from Suc.IH[OF this] show ?case using r by simp
qed

lemma start_workers_frame:
  "selectedKeywordsMap (start_workers n s) = selectedKeywordsMap s \<and>
   base64Store (start_workers n s) = base64Store s \<and>
   singles (start_workers n s) = singles s \<and>
   isProcessingAll (start_workers n s) = isProcessingAll s"
proof (induction n arbitrary: s)
  case 0
  then show ?case by simp
next
  case (Suc n)
  obtain w s' where r: "worker_run s = (w, s')" by (cases "worker_run s")
  then have "selectedKeywordsMap s' = selectedKeywordsMap s \<and> base64Store s' = base64Store s
     \<and> singles s' = singles s \<and> isProcessingAll s' = isProcessingAll s"
    using worker_loop_frame[of "queue s" s] by (simp add: worker_run_def)
  then show ?case using r Suc.IH[of "s'\<lparr>workers := workers s' @ [w]\<rparr>"] by simp
qed

lemma finish_run_frame:
  "batch (finish_run s) = batch s" "selectedKeywordsMap (finish_run s) = selectedKeywordsMap s"
  "base64Store (finish_run s) = base64Store s" "queue (finish_run s) = queue s"
  "workers (finish_run s) = workers s" "singles (finish_run s) = singles s"
  "analyzed (finish_run s) = analyzed s"
  by (simp_all add: finish_run_def)

lemma processAll_closed:
  assumes "marks_closed P" "P (batch s)"
  shows "P (batch (processAll s))"
proof -
  let ?s1 = "s\<lparr>isProcessingAll := True, queue := eligible (batch s), workers := [], analyzed := []\<rparr>"
  have "P (batch ?s1)" using assms(2) by simp
  from start_workers_closed[OF assms(1) this]
  show ?thesis using assms(2) by (simp add: processAll_def Let_def finish_run_frame)
qed

lemma processAll_frame:
  "selectedKeywordsMap (processAll s) = selectedKeywordsMap s \<and>
   base64Store (processAll s) = base64Store s \<and> singles (processAll s) = singles s"
  using start_workers_frame[of _ "s\<lparr>isProcessingAll := True, queue := eligible (batch s), workers := [], analyzed := []\<rparr>"]
  by (simp add: processAll_def Let_def finish_run_frame)

lemma call_closed:
  assumes "marks_closed P" "P (batch s)"
  shows "P (batch (analyzeSingle_call i s))"
  using begin_closed[OF assms, of i]
  by (cases "analyzeSingle_begin i s") (auto simp: analyzeSingle_call_def split: bool.splits)

lemma call_frame:
  "selectedKeywordsMap (analyzeSingle_call i s) = selectedKeywordsMap s \<and>
   base64Store (analyzeSingle_call i s) = base64Store s"
  using begin_frame(1,2)[of i s]
  by (cases "analyzeSingle_begin i s") (auto simp: analyzeSingle_call_def split: bool.splits)

lemma single_settles_closed:
  assumes "marks_closed P" "P (batch s)"
  shows "P (batch (single_settles k out s))"
  using assms settle_closed[OF assms(1), of "s\<lparr>singles := take k (singles s) @ drop (Suc k) (singles s)\<rparr>"]
  by (simp add: single_settles_def)

lemma single_settles_frame:
  "selectedKeywordsMap (single_settles k out s) = selectedKeywordsMap s \<and>
   base64Store (single_settles k out s) = base64Store s"
  by (simp add: single_settles_def settle_frame)

lemma worker_settles_closed:
  assumes "marks_closed P" "P (batch s)"
  shows "P (batch (worker_settles k out s))"
proof (cases "k < length (workers s)")
  case False
  then show ?thesis using assms(2) by (simp add: worker_settles_def)
next
  case True
  show ?thesis
  proof (cases "workers s ! k")
    case Finished
    then show ?thesis using True assms(2) by (simp add: worker_settles_def)
  next
    case (Awaiting i)
    let ?s1 = "analyzeSingle_settle i out s"
    obtain w s' where r: "worker_run ?s1 = (w, s')" by (cases "worker_run ?s1")
    have "P (batch ?s1)" by (rule settle_closed[OF assms])
    then have "P (batch s')" using worker_loop_closed[OF assms(1), of ?s1 "queue ?s1"] r
      by (simp add: worker_run_def)
    then show ?thesis using True Awaiting r by (simp add: worker_settles_def finish_run_frame)
  qed
qed

lemma worker_settles_frame:
  "selectedKeywordsMap (worker_settles k out s) = selectedKeywordsMap s \<and>
   base64Store (worker_settles k out s) = base64Store s"
proof (cases "k < length (workers s)")
  case False
  then show ?thesis by (simp add: worker_settles_def)
next
  case True
  show ?thesis
  proof (cases "workers s ! k")
    case Finished
    then show ?thesis using True by (simp add: worker_settles_def)
  next
    case (Awaiting i)
    let ?s1 = "analyzeSingle_settle i out s"
    obtain w s' where r: "worker_run ?s1 = (w, s')" by (cases "worker_run ?s1")
    then have "selectedKeywordsMap s' = selectedKeywordsMap ?s1 \<and> base64Store s' = base64Store ?s1"
      using worker_loop_frame[of "queue ?s1" ?s1] by (simp add: worker_run_def)
    then show ?thesis using True Awaiting r
      by (simp add: worker_settles_def finish_run_frame settle_frame)
  qed
qed

subsection \<open>Consistency of status, result and error\<close>


lemma normalizeAll_Cons:
  "fst (normalizeAll gen k (f # fs) st) =
     (case resizeImage f of
        None \<Rightarrow> None # fst (normalizeAll gen (Suc k) fs st)
      | Some (b, p) \<Rightarrow>
          Some (newItem (gen k) p) # fst (normalizeAll gen (Suc k) fs (st(gen k \<mapsto> b))))"
  by (simp split: option.splits prod.splits)






text \<open>The definitions that evaluate an execution of user calls and single analyses.\<close>

lemmas ev = capturePhoto_def init_state_def newItem_def analyzeSingle_call_def
  analyzeSingle_begin_def markProcessing_def markError_def markCompleted_def
  single_settles_def analyzeSingle_settle_def Let_def toResult_def


subsection \<open>The selection map\<close>

lemma ids_marks: "marks_closed (\<lambda>b. map item_id b = ids)"
  by (auto simp: marks_closed_def markProcessing_def markError_def markCompleted_def
      intro!: nth_equalityI)

lemma addFiles_batch_suffix:
  "\<exists>new. batch (snd (addFilesToBatch files gen s)) = new @ batch s"
  by (cases "normalizeAll gen 0 (filter isImage files) (base64Store s)")
     (auto simp: addFilesToBatch_def Let_def)

lemma addFiles_selection:
  "selectedKeywordsMap (snd (addFilesToBatch files gen s)) = selectedKeywordsMap s"
  by (cases "normalizeAll gen 0 (filter isImage files) (base64Store s)")
     (auto simp: addFilesToBatch_def Let_def)

lemma sel_inv_analysis:
  assumes "sel_inv s" "map item_id (batch s') = map item_id (batch s)"
    "selectedKeywordsMap s' = selectedKeywordsMap s"
  shows "sel_inv s'"
proof -
  have "item_id ` set (batch s') = item_id ` set (batch s)"
    using assms(2) by (metis set_map)
  then show ?thesis using assms by (simp add: sel_inv_def)
qed

lemma step_sel_inv:
  assumes "sel_inv s" "targets_exist [e] s"
  shows "sel_inv (step e s)"
proof (cases e)
  case (AddFiles files gen)
  obtain new where "batch (snd (addFilesToBatch files gen s)) = new @ batch s"
    using addFiles_batch_suffix by blast
  then show ?thesis using assms AddFiles by (auto simp: sel_inv_def addFiles_selection)
next
  case (Capture i d)
  then show ?thesis using assms by (auto simp: sel_inv_def capturePhoto_def)
next
  case (Remove i)
  then show ?thesis using assms by (auto simp: sel_inv_def removeItem_def)
next
  case Clear
  then show ?thesis by (simp add: sel_inv_def clearBatch_def)
next
  case (Toggle i kw)
  then show ?thesis using assms by (auto simp: sel_inv_def handleToggleKeyword_def Let_def)
next
  case (SelectAll i kws)
  then show ?thesis using assms by (auto simp: sel_inv_def handleSelectAllInItem_def)
next
  case (Analyze i)
  then show ?thesis
    using sel_inv_analysis[OF assms(1) call_closed[OF ids_marks refl]] call_frame by simp
next
  case ProcessAll
  then show ?thesis
    using sel_inv_analysis[OF assms(1) processAll_closed[OF ids_marks refl]] processAll_frame by simp
next
  case (SingleSettles k out)
  then show ?thesis
    using sel_inv_analysis[OF assms(1) single_settles_closed[OF ids_marks refl]]
      single_settles_frame by simp
next
  case (WorkerSettles k out)
  then show ?thesis
    using sel_inv_analysis[OF assms(1) worker_settles_closed[OF ids_marks refl]]
      worker_settles_frame by simp
qed

lemma exec_sel_inv:
  assumes "sel_inv s" "targets_exist evs s"
  shows "sel_inv (exec evs s)"
  using assms
proof (induction evs arbitrary: s)
  case Nil
  then show ?case by simp
next
  case (Cons e es)
  have "targets_exist [e] s" "targets_exist es (step e s)" using Cons.prems(2) by simp_all
  then show ?case using Cons.IH[OF step_sel_inv[OF Cons.prems(1)]] by simp
qed

text \<open>
  C8 (as amended). In every state reached by calls that toggle and select on items of
  the store, the selection map has an entry for an id only if the store holds an item
  with that id; after \<^verbatim>\<open>removeItem\<close> no entry for the id remains; and toggling off
  the only selected word leaves the entry in place, holding the empty list.
\<close>

theorem selection_entries:
  assumes "targets_exist evs init_state"
  shows "dom (selectedKeywordsMap (exec evs init_state))
           \<subseteq> item_id ` set (batch (exec evs init_state)) \<and>
         selectedKeywordsMap (removeItem i (exec evs init_state)) i = None \<and>
         (selectedKeywordsMap (exec evs init_state) i = Some [w] \<longrightarrow>
            selectedKeywordsMap (handleToggleKeyword i w (exec evs init_state)) i = Some [])"
proof -
  have "sel_inv init_state" by (simp add: sel_inv_def init_state_def)
  from exec_sel_inv[OF this assms] show ?thesis
    by (simp add: sel_inv_def removeItem_def handleToggleKeyword_def Let_def)
qed

text \<open>The definitions that evaluate the selection handlers and the removal.\<close>

lemmas ev2 = handleToggleKeyword_def handleSelectAllInItem_def removeItem_def

text \<open>
  C8 as stated fails: after a word is toggled on and off, the entry of the item is
  still there, with no word selected.
\<close>

theorem empty_selection_counterexample:
  "selectedKeywordsMap (exec [Capture ''a'' ''data:x'', Toggle ''a'' ''sky'',
      Toggle ''a'' ''sky''] init_state) ''a'' = Some []"
  by (simp add: ev ev2)

theorem selection_entries_witness:
  "targets_exist [Capture ''a'' ''data:x'', Capture ''b'' ''data:y'', Toggle ''a'' ''sky'']
     init_state \<and>
   dom (selectedKeywordsMap (exec [Capture ''a'' ''data:x'', Capture ''b'' ''data:y'',
      Toggle ''a'' ''sky''] init_state))
     \<subseteq> item_id ` set (batch (exec [Capture ''a'' ''data:x'', Capture ''b'' ''data:y'',
      Toggle ''a'' ''sky''] init_state)) \<and>
   selectedKeywordsMap (exec [Capture ''a'' ''data:x'', Capture ''b'' ''data:y'',
      Toggle ''a'' ''sky''] init_state) ''a'' = Some [''sky''] \<and>
   selectedKeywordsMap (removeItem ''a'' (exec [Capture ''a'' ''data:x'',
      Capture ''b'' ''data:y'', Toggle ''a'' ''sky''] init_state)) ''a'' = None \<and>
   selectedKeywordsMap (handleToggleKeyword ''a'' ''sky'' (exec [Capture ''a'' ''data:x'',
      Capture ''b'' ''data:y'', Toggle ''a'' ''sky''] init_state)) ''a'' = Some []"
proof -
  have t: "targets_exist [Capture ''a'' ''data:x'', Capture ''b'' ''data:y'', Toggle ''a'' ''sky'']
     init_state"
    by (simp add: ev ev2)
  have e: "selectedKeywordsMap (exec [Capture ''a'' ''data:x'', Capture ''b'' ''data:y'',
      Toggle ''a'' ''sky''] init_state) ''a'' = Some [''sky'']"
    by (simp add: ev ev2)
  show ?thesis using t e selection_entries[OF t, of "''a''" "''sky''"] by simp
qed

subsection \<open>Intake\<close>

lemma normalizeAll_decoded:
  assumes "\<forall>f\<in>set fs. picture f \<noteq> None"
  shows "\<exists>new. fst (normalizeAll gen k fs st) = map Some new \<and>
           map previewUrl new = map objectUrl fs \<and>
           (\<forall>it\<in>set new. status it = Pending)"
  using assms
proof (induction fs arbitrary: k st)
  case Nil
  then show ?case by simp
next
  case (Cons f fs)
  from Cons.prems obtain w h where pic: "picture f = Some (w, h)" by auto
  let ?b = "jpeg f (resizeDims (real w, real h))"
  have r: "resizeImage f = Some (?b, objectUrl f)"
    using pic by (simp add: resizeImage_def)
  from Cons.prems have "\<forall>f\<in>set fs. picture f \<noteq> None" by simp
  from Cons.IH[OF this, of "Suc k" "st(gen k \<mapsto> ?b)"]
  obtain new where new: "fst (normalizeAll gen (Suc k) fs (st(gen k \<mapsto> ?b))) = map Some new"
    "map previewUrl new = map objectUrl fs" "\<forall>it\<in>set new. status it = Pending"
    by blast
  have "fst (normalizeAll gen k (f # fs) st)
          = map Some (newItem (gen k) (objectUrl f) # new)"
    using r new(1) by (simp only: normalizeAll_Cons) simp
  moreover have "map previewUrl (newItem (gen k) (objectUrl f) # new) = map objectUrl (f # fs)"
    using new(2) by (simp add: newItem_def)
  moreover have "\<forall>it\<in>set (newItem (gen k) (objectUrl f) # new). status it = Pending"
    using new(3) by (simp add: newItem_def)
  ultimately show ?case by blast
qed

text \<open>
  C1 (as amended). Files whose declared type is not an image type are dropped by the
  filter before \<^verbatim>\<open>resizeImage\<close> is called, and no error is raised for them: when
  every submitted file of an image type decodes, the call is fulfilled, and the store
  gains, in front, exactly one pending item for each file of an image type, in the
  order of submission, and none for the others.
\<close>

theorem intake_skips_non_images:
  assumes "\<forall>f\<in>set files. isImage f \<longrightarrow> picture f \<noteq> None"
  shows "fst (addFilesToBatch files gen s) = Fulfilled_intake \<and>
         (\<exists>new. batch (snd (addFilesToBatch files gen s)) = new @ batch s \<and>
                map previewUrl new = map objectUrl (filter isImage files) \<and>
                (\<forall>it\<in>set new. status it = Pending))"
proof (cases "files = []")
  case True
  then show ?thesis by (simp add: addFilesToBatch_def)
next
  case False
  have "\<forall>f\<in>set (filter isImage files). picture f \<noteq> None" using assms by simp
  from normalizeAll_decoded[OF this, of gen 0 "base64Store s"]
  obtain new where new: "fst (normalizeAll gen 0 (filter isImage files) (base64Store s)) = map Some new"
    "map previewUrl new = map objectUrl (filter isImage files)"
    "\<forall>it\<in>set new. status it = Pending"
    by blast
  obtain rs st where n: "normalizeAll gen 0 (filter isImage files) (base64Store s) = (rs, st)"
    by (cases "normalizeAll gen 0 (filter isImage files) (base64Store s)")
  have rs: "rs = map Some new" using n new(1) by simp
  have all: "list_all (\<lambda>r. r \<noteq> None) rs" using rs by (simp add: list_all_iff)
  have the: "map the rs = new" using rs by (simp add: comp_def)
  have "fst (addFilesToBatch files gen s) = Fulfilled_intake"
    using False n all by (simp add: addFilesToBatch_def Let_def)
  moreover have "batch (snd (addFilesToBatch files gen s)) = new @ batch s"
    using False n all the by (simp add: addFilesToBatch_def Let_def)
  ultimately show ?thesis using new(2,3) by blast
qed

text \<open>The definitions that evaluate an intake of sample files.\<close>

lemmas ev3 = addFilesToBatch_def isImage_def startsWith_def resizeImage_def photo_def
  notes_txt_def

text \<open>
  C1 as stated fails: a text file submitted alone is not rejected with
  \<open>InvalidInputError\<close>; the call is fulfilled and the store stays empty.
\<close>

theorem silent_skip_counterexample:
  "fst (addFilesToBatch [notes_txt] sample_ids init_state) = Fulfilled_intake \<and>
   fst (addFilesToBatch [notes_txt] sample_ids init_state) \<noteq> Rejected_intake InvalidInputError \<and>
   batch (snd (addFilesToBatch [notes_txt] sample_ids init_state)) = []"
  by (simp add: ev ev3)

theorem intake_skips_non_images_witness:
  "list_all (\<lambda>f. \<not> isImage f \<or> picture f \<noteq> None)
     [photo 3000 2000 ''blob:1'', notes_txt, photo 800 600 ''blob:2''] \<and>
   fst (addFilesToBatch [photo 3000 2000 ''blob:1'', notes_txt, photo 800 600 ''blob:2'']
          sample_ids init_state) = Fulfilled_intake \<and>
   map status (batch (snd (addFilesToBatch
          [photo 3000 2000 ''blob:1'', notes_txt, photo 800 600 ''blob:2'']
          sample_ids init_state))) = [Pending, Pending] \<and>
   map previewUrl (batch (snd (addFilesToBatch
          [photo 3000 2000 ''blob:1'', notes_txt, photo 800 600 ''blob:2'']
          sample_ids init_state))) = [''blob:1'', ''blob:2'']"
proof -
  have h: "\<forall>f\<in>set [photo 3000 2000 ''blob:1'', notes_txt, photo 800 600 ''blob:2''].
             isImage f \<longrightarrow> picture f \<noteq> None"
    by (simp add: ev3)
  have b: "batch init_state = []" by (simp add: init_state_def)
  have i: "filter isImage [photo 3000 2000 ''blob:1'', notes_txt, photo 800 600 ''blob:2'']
     = [photo 3000 2000 ''blob:1'', photo 800 600 ''blob:2'']"
    by (simp add: ev3)
  from intake_skips_non_images[OF h, of sample_ids init_state]
  obtain new where new:
    "fst (addFilesToBatch [photo 3000 2000 ''blob:1'', notes_txt, photo 800 600 ''blob:2'']
          sample_ids init_state) = Fulfilled_intake"
    "batch (snd (addFilesToBatch [photo 3000 2000 ''blob:1'', notes_txt, photo 800 600 ''blob:2'']
          sample_ids init_state)) = new @ batch init_state"
    "map previewUrl new = map objectUrl
       (filter isImage [photo 3000 2000 ''blob:1'', notes_txt, photo 800 600 ''blob:2''])"
    "\<forall>it\<in>set new. status it = Pending"
    by blast
  have len: "length new = 2" using new(3) i by (metis length_map length_Cons list.size(3) numeral_2_eq_2)
  then obtain x y where xy: "new = [x, y]"
    by (metis (no_types, opaque_lifting) Suc_length_conv length_0_conv numeral_2_eq_2)
  have st: "map status new = [Pending, Pending]" using new(4) xy by simp
  have pv: "map previewUrl new = [''blob:1'', ''blob:2'']" using new(3) i by (simp add: photo_def)
  show ?thesis using h new(1,2) st pv b by (simp add: list_all_iff)
qed

subsection \<open>The size of the worker pool\<close>

lemma addFiles_frame:
  "workers (snd (addFilesToBatch files gen s)) = workers s"
  "queue (snd (addFilesToBatch files gen s)) = queue s"
  "singles (snd (addFilesToBatch files gen s)) = singles s"
  "analyzed (snd (addFilesToBatch files gen s)) = analyzed s"
  "isProcessingAll (snd (addFilesToBatch files gen s)) = isProcessingAll s"
  by (cases "normalizeAll gen 0 (filter isImage files) (base64Store s)";
      simp add: addFilesToBatch_def Let_def)+

lemma worker_run_workers: "workers (snd (worker_run s)) = workers s"
  using worker_loop_frame[of "queue s" s] by (simp add: worker_run_def)

lemma start_workers_length:
  "length (workers (start_workers n s)) = length (workers s) + n"
proof (induction n arbitrary: s)
  case 0
  then show ?case by simp
next
  case (Suc n)
  obtain w s' where r: "worker_run s = (w, s')" by (cases "worker_run s")
  then have "workers s' = workers s" using worker_run_workers[of s] by simp
  then show ?case using r Suc.IH[of "s'\<lparr>workers := workers s' @ [w]\<rparr>"] by simp
qed

lemma processAll_workers:
  assumes "eligible (batch s) \<noteq> []" "\<not> isProcessingAll s"
  shows "length (workers (processAll s)) = min CONCURRENCY_LIMIT (length (eligible (batch s)))"
  using assms by (simp add: processAll_def Let_def finish_run_frame start_workers_length)

lemma processAll_workers_le:
  assumes "length (workers s) \<le> 5"
  shows "length (workers (processAll s)) \<le> 5"
proof (cases "eligible (batch s) \<noteq> [] \<and> \<not> isProcessingAll s")
  case True
  then show ?thesis using processAll_workers[of s] by (simp add: CONCURRENCY_LIMIT_def)
next
  case False
  then have "processAll s = s" by (auto simp: processAll_def Let_def)
  then show ?thesis using assms by simp
qed

lemma worker_settles_length:
  "length (workers (worker_settles k out s)) = length (workers s)"
proof (cases "k < length (workers s)")
  case False
  then show ?thesis by (simp add: worker_settles_def)
next
  case True
  show ?thesis
  proof (cases "workers s ! k")
    case Finished
    then show ?thesis using True by (simp add: worker_settles_def)
  next
    case (Awaiting i)
    let ?s1 = "analyzeSingle_settle i out s"
    obtain w s' where r: "worker_run ?s1 = (w, s')" by (cases "worker_run ?s1")
    then have "workers s' = workers s" using worker_run_workers[of ?s1] by (simp add: settle_frame)
    then show ?thesis using True Awaiting r by (simp add: worker_settles_def finish_run_frame)
  qed
qed

lemma call_workers: "workers (analyzeSingle_call i s) = workers s"
  using begin_frame(4)[of i s]
  by (cases "analyzeSingle_begin i s") (auto simp: analyzeSingle_call_def split: bool.splits)

lemma step_workers_le:
  assumes "length (workers s) \<le> 5"
  shows "length (workers (step e s)) \<le> 5"
proof (cases e)
  case (AddFiles files gen)
  then show ?thesis using assms by (simp add: addFiles_frame)
next
  case (Capture i d)
  then show ?thesis using assms by (simp add: capturePhoto_def)
next
  case (Remove i)
  then show ?thesis using assms by (simp add: removeItem_def)
next
  case Clear
  then show ?thesis using assms by (simp add: clearBatch_def)
next
  case (Toggle i kw)
  then show ?thesis using assms by (simp add: handleToggleKeyword_def Let_def)
next
  case (SelectAll i kws)
  then show ?thesis using assms by (simp add: handleSelectAllInItem_def)
next
  case (Analyze i)
  then show ?thesis using assms by (simp add: call_workers)
next
  case ProcessAll
  then show ?thesis using processAll_workers_le[OF assms] by simp
next
  case (SingleSettles k out)
  then show ?thesis using assms by (simp add: single_settles_def settle_frame)
next
  case (WorkerSettles k out)
  then show ?thesis using assms by (simp add: worker_settles_length)
qed

lemma exec_workers_le:
  assumes "length (workers s) \<le> 5"
  shows "length (workers (exec evs s)) \<le> 5"
  using assms
proof (induction evs arbitrary: s)
  case Nil
  then show ?case by simp
next
  case (Cons e es)
  show ?case using Cons.IH[OF step_workers_le[OF Cons.prems]] by simp
qed

text \<open>
  C4. A call of \<^verbatim>\<open>processAll\<close> that starts a run creates exactly
  \<open>min CONCURRENCY_LIMIT n\<close> workers, where \<open>n\<close> is the number of items that are pending
  or in error at the call and \<open>CONCURRENCY_LIMIT = 5\<close>; and in every reachable state at
  most 5 workers wait for the provider, however many items are queued.
\<close>

theorem worker_pool_bound:
  "(eligible (batch s) \<noteq> [] \<and> \<not> isProcessingAll s \<longrightarrow>
      length (workers (processAll s)) = min CONCURRENCY_LIMIT (length (eligible (batch s)))) \<and>
   CONCURRENCY_LIMIT = 5 \<and>
   calls_in_flight (exec evs init_state) \<le> 5"
proof -
  have "length (workers (exec evs init_state)) \<le> 5"
    by (rule exec_workers_le) (simp add: init_state_def)
  moreover have "calls_in_flight (exec evs init_state) \<le> length (workers (exec evs init_state))"
    by (simp add: calls_in_flight_def)
  ultimately show ?thesis using processAll_workers[of s] by (simp add: CONCURRENCY_LIMIT_def)
qed

text \<open>The definitions that evaluate the scheduler.\<close>

lemmas ev4 = processAll_def eligible_def start_workers.simps worker_run_def
  finish_run_def CONCURRENCY_LIMIT_def worker_settles_def calls_in_flight_def

lemma seven_state:
  "map status (batch (exec seven init_state)) = replicate 7 Pending"
  "isProcessingAll (exec seven init_state) = False"
  "workers (processAll (exec seven init_state))
     = [Awaiting ''g'', Awaiting ''f'', Awaiting ''e'', Awaiting ''d'', Awaiting ''c'']"
  by (simp_all add: seven_def ev ev4 eval_nat_numeral)

lemma exec_append: "exec (xs @ ys) s = exec ys (exec xs s)"
  by (induction xs arbitrary: s) simp_all

theorem worker_pool_bound_witness:
  "eligible (batch (exec seven init_state)) \<noteq> [] \<and>
   \<not> isProcessingAll (exec seven init_state) \<and>
   length (eligible (batch (exec seven init_state))) = 7 \<and>
   length (workers (processAll (exec seven init_state))) = 5 \<and>
   calls_in_flight (exec (seven @ [ProcessAll]) init_state) = 5"
proof -
  have st: "map status (eligible (batch (exec seven init_state))) = replicate 7 Pending"
    by (simp add: seven_def ev ev4 eval_nat_numeral)
  then have len: "length (eligible (batch (exec seven init_state))) = 7"
    by (metis length_map length_replicate)
  then have ne: "eligible (batch (exec seven init_state)) \<noteq> []" by auto
  have fl: "calls_in_flight (exec (seven @ [ProcessAll]) init_state) = 5"
    by (simp add: exec_append calls_in_flight_def seven_state)
  show ?thesis
    using worker_pool_bound[of "exec seven init_state" "seven @ [ProcessAll]"] ne len fl
      seven_state(2)
    by (simp add: CONCURRENCY_LIMIT_def)
qed

subsection \<open>Snapshot semantics of a run\<close>
















subsection \<open>Removal while an analysis is in flight\<close>

lemma absent_marks: "marks_closed (\<lambda>b. i \<notin> item_id ` set b)"
  by (auto simp: marks_closed_def markProcessing_def markError_def markCompleted_def)

lemma normalizeAll_ids:
  assumes "Some it \<in> set (fst (normalizeAll gen k fs st))"
  shows "item_id it \<in> set (map gen [k..<k + length fs])"
  using assms
proof (induction fs arbitrary: k st)
  case Nil
  then show ?case by simp
next
  case (Cons f fs)
  have up: "[k..<k + length (f # fs)] = k # [Suc k..<Suc k + length fs]"
    by (subst upt_rec) simp
  show ?case
  proof (cases "resizeImage f")
    case None
    then have "Some it \<in> set (fst (normalizeAll gen (Suc k) fs st))"
      using Cons.prems by (simp only: normalizeAll_Cons) simp
    from Cons.IH[OF this] show ?thesis by (simp only: up) simp
  next
    case (Some bp)
    obtain b p where bp: "bp = (b, p)" by (cases bp)
    have "Some it = Some (newItem (gen k) p) \<or>
          Some it \<in> set (fst (normalizeAll gen (Suc k) fs (st(gen k \<mapsto> b))))"
      using Cons.prems Some bp by (simp only: normalizeAll_Cons) simp
    then show ?thesis
    proof
      assume "Some it = Some (newItem (gen k) p)"
      then show ?thesis by (simp only: up) (simp add: newItem_def)
    next
      assume "Some it \<in> set (fst (normalizeAll gen (Suc k) fs (st(gen k \<mapsto> b))))"
      from Cons.IH[OF this] show ?thesis by (simp only: up) simp
    qed
  qed
qed

lemma addFiles_absent:
  assumes "i \<notin> item_id ` set (batch s)"
    "i \<notin> set (map gen [0..<length (filter isImage files)])"
  shows "i \<notin> item_id ` set (batch (snd (addFilesToBatch files gen s)))"
proof (cases "files = []")
  case True
  then show ?thesis using assms by (simp add: addFilesToBatch_def)
next
  case False
  obtain rs st where n: "normalizeAll gen 0 (filter isImage files) (base64Store s) = (rs, st)"
    by (cases "normalizeAll gen 0 (filter isImage files) (base64Store s)")
  have new: "item_id it \<noteq> i" if "Some it \<in> set rs" for it
    using normalizeAll_ids[of it gen 0 "filter isImage files" "base64Store s"] that n assms(2)
    by auto
  have "item_id (the r) \<noteq> i" if "r \<in> set rs" "\<forall>r\<in>set rs. r \<noteq> None" for r
    using that new[of "the r"] by (cases r) auto
  then show ?thesis using False n assms(1)
    by (auto simp: addFilesToBatch_def Let_def list_all_iff)
qed

lemma step_absent:
  assumes "i \<notin> item_id ` set (batch s)" "no_intake_of i [e]"
  shows "i \<notin> item_id ` set (batch (step e s))"
proof (cases e)
  case (AddFiles files gen)
  then show ?thesis using addFiles_absent[OF assms(1), of gen files] assms(2) by simp
next
  case (Capture j d)
  then show ?thesis using assms by (simp add: capturePhoto_def newItem_def)
next
  case (Remove j)
  then show ?thesis using assms by (auto simp: removeItem_def)
next
  case Clear
  then show ?thesis by (simp add: clearBatch_def)
next
  case (Toggle j kw)
  then show ?thesis using assms by (simp add: handleToggleKeyword_def Let_def)
next
  case (SelectAll j kws)
  then show ?thesis using assms by (simp add: handleSelectAllInItem_def)
next
  case (Analyze j)
  then show ?thesis using call_closed[OF absent_marks assms(1)] by simp
next
  case ProcessAll
  then show ?thesis using processAll_closed[OF absent_marks assms(1)] by simp
next
  case (SingleSettles k out)
  then show ?thesis using single_settles_closed[OF absent_marks assms(1)] by simp
next
  case (WorkerSettles k out)
  then show ?thesis using worker_settles_closed[OF absent_marks assms(1)] by simp
qed

lemma exec_absent:
  assumes "i \<notin> item_id ` set (batch s)" "no_intake_of i evs"
  shows "i \<notin> item_id ` set (batch (exec evs s))"
  using assms
proof (induction evs arbitrary: s)
  case Nil
  then show ?case by simp
next
  case (Cons e es)
  have "no_intake_of i [e]" "no_intake_of i es" using Cons.prems(2) by simp_all
  then show ?case using Cons.IH[OF step_absent[OF Cons.prems(1)]] by simp
qed

lemma settle_absent:
  assumes "i \<notin> item_id ` set (batch s)"
  shows "analyzeSingle_settle i out s = s"
  using assms
  by (cases out) (simp_all add: analyzeSingle_settle_def markCompleted_absent markError_absent)

text \<open>
  C6. After \<^verbatim>\<open>removeItem\<close> of an id, and whatever happens then short of an intake
  that draws the same id again, no item of the store carries the id; and the write of
  an analysis of that id that settles then, with a result or with an error, ends
  normally and leaves the state as it is: it is dropped.
\<close>

theorem removed_item_stays_removed:
  assumes "no_intake_of i evs"
  shows "i \<notin> item_id ` set (batch (exec evs (removeItem i s))) \<and>
         analyzeSingle_settle i out (exec evs (removeItem i s)) = exec evs (removeItem i s)"
proof -
  have "i \<notin> item_id ` set (batch (removeItem i s))" by (auto simp: removeItem_def)
  from exec_absent[OF this assms] show ?thesis by (simp add: settle_absent)
qed

theorem removed_item_stays_removed_witness:
  "no_intake_of ''a'' [SingleSettles 0 (Fulfilled sample_response)] \<and>
   singles (exec in_flight_a init_state) = [''a''] \<and>
   map item_id (batch (exec in_flight_a init_state)) = [''b'', ''a''] \<and>
   ''a'' \<notin> item_id ` set (batch (exec [SingleSettles 0 (Fulfilled sample_response)]
        (removeItem ''a'' (exec in_flight_a init_state)))) \<and>
   map item_id (batch (exec [SingleSettles 0 (Fulfilled sample_response)]
        (removeItem ''a'' (exec in_flight_a init_state)))) = [''b''] \<and>
   analyzeSingle_settle ''a'' (Rejected ''boom'')
        (exec [SingleSettles 0 (Fulfilled sample_response)]
           (removeItem ''a'' (exec in_flight_a init_state)))
     = exec [SingleSettles 0 (Fulfilled sample_response)]
           (removeItem ''a'' (exec in_flight_a init_state))"
proof -
  have n: "no_intake_of ''a'' [SingleSettles 0 (Fulfilled sample_response)]" by simp
  have a: "singles (exec in_flight_a init_state) = [''a'']"
    "map item_id (batch (exec in_flight_a init_state)) = [''b'', ''a'']"
    "map item_id (batch (exec [SingleSettles 0 (Fulfilled sample_response)]
        (removeItem ''a'' (exec in_flight_a init_state)))) = [''b'']"
    by (simp_all add: in_flight_a_def ev ev2)
  show ?thesis
    using n a removed_item_stays_removed[OF n, of "exec in_flight_a init_state" "Rejected ''boom''"]
    by simp
qed

subsection \<open>Partial failure of a run\<close>






























subsection \<open>Status transitions under single flight\<close>












lemma lost_payload_begin [simp]:
  "lost_payload (snd (analyzeSingle_begin j s)) = lost_payload s"
  by (rule ext) (simp add: lost_payload_def begin_frame)













lemma inflight_append_worker:
  "inflight (s\<lparr>workers := workers s @ [w]\<rparr>) = inflight s @ worker_ids w"
  by (simp add: inflight_def)










lemma settled_ids:
  assumes "list_all2 (settled i) b b'"
  shows "map item_id b' = map item_id b"
  using assms by (induction rule: list_all2_induct) (auto simp: settled_def)



















subsection \<open>A completed item analysed again\<close>





end
